theory Spec2Isabelle
  imports Main "HOL-Library.AList"
begin

section \<open>The capture loop of \<open>run_capture\<close>\<close>

text \<open>
  The loop of \<open>run_capture\<close> (kindle_to_pdf.py, lines 554 to 615) keeps four local
  variables, \<open>last_hash\<close>, \<open>same_count\<close>, \<open>page\<close> and \<open>failed_turns\<close>, and writes
  and deletes files \<open>page_NNNN.png\<close> in the output folder. The folder is modelled as an
  association list from the page index in the file name to the frame stored under that name
  (the names \<open>page_{page:04d}.png\<close> are in one-to-one correspondence with the indices).
  A frame is a value of type \<open>'f\<close>; \<open>get_image_hash\<close>, the MD5 digest of the file's bytes,
  is a parameter of type \<open>'f \<Rightarrow> 'h\<close>.
\<close>

record ('f, 'h) capture_state =
  last_hash :: "'h option"
  same_count :: int
  page :: int
  failed_turns :: int
  folder :: "(int \<times> 'f) list"

text \<open>The values assigned before the \<open>while\<close>; the output folder has just been created.\<close>

definition initial_state :: "('f, 'h) capture_state" where
  "initial_state =
     \<lparr>last_hash = None, same_count = 0, page = 0, failed_turns = 0, folder = []\<rparr>"

text \<open>
  What the outside world does in one iteration: \<open>capture_window\<close> returns \<open>False\<close>
  (\<open>Capture None\<close>) or writes a frame to the output path and returns \<open>True\<close>
  (\<open>Capture (Some img)\<close>), or the user presses Ctrl+C. A \<open>KeyboardInterrupt\<close> is modelled
  where it arrives between two iterations (the loop spends its time in the \<open>time.sleep\<close>
  calls that end an iteration, after all updates of the iteration are done).
\<close>

datatype 'f tick = Capture "'f option" | KeyboardInterrupt

datatype control = Continue | Break

text \<open>
  One pass through the body of the \<open>while\<close>, lines 562 to 612. \<open>activate_kindle\<close>,
  \<open>next_page\<close>, the sleeps and the prints do not touch the loop variables or the folder.
\<close>

definition loop_body ::
  "('f \<Rightarrow> 'h) \<Rightarrow> ('f, 'h) capture_state \<Rightarrow> 'f option \<Rightarrow> control \<times> ('f, 'h) capture_state" where
  "loop_body get_image_hash s shot =
     (let page1 = page s + 1 in
      case shot of
        None \<Rightarrow> (Continue, s\<lparr>page := page1\<rparr>)
      | Some img \<Rightarrow>
          (let written = AList.update page1 img (folder s);
               current_hash = get_image_hash img
           in if Some current_hash = last_hash s then
                (let same1 = same_count s + 1;
                     unlinked = AList.delete page1 written;
                     page2 = page1 - 1
                 in if same1 \<ge> 5 then
                      (Break, s\<lparr>same_count := same1, page := page2, folder := unlinked\<rparr>)
                    else
                      (Continue, s\<lparr>same_count := same1, page := page2, folder := unlinked,
                                   failed_turns := failed_turns s + 1\<rparr>))
              else
                (Continue, s\<lparr>same_count := 0, failed_turns := 0,
                             last_hash := Some current_hash, page := page1,
                             folder := written\<rparr>)))"

text \<open>
  How the loop was left: by \<open>break\<close> after five duplicates in a row (\<open>Complete\<close>), by the
  condition \<open>page < max_pages\<close> becoming false (\<open>Ceiling\<close>), or by \<open>KeyboardInterrupt\<close>
  (\<open>Cancelled\<close>). The model reads the outside world from a finite list; \<open>Exhausted\<close> says
  that the list ran out while the loop was still running.
\<close>

datatype ending = Complete | Ceiling | Cancelled | Exhausted

text \<open>
  The \<open>while page < max_pages\<close> loop. The result is the way the loop was left, the number
  of passes through the body that were started, and the state afterwards.
\<close>

fun capture_loop ::
  "('f \<Rightarrow> 'h) \<Rightarrow> int \<Rightarrow> ('f, 'h) capture_state \<Rightarrow> 'f tick list
     \<Rightarrow> ending \<times> nat \<times> ('f, 'h) capture_state" where
  "capture_loop get_image_hash max_pages s ticks =
     (if page s < max_pages then
        (case ticks of
           [] \<Rightarrow> (Exhausted, 0, s)
         | KeyboardInterrupt # rest \<Rightarrow> (Cancelled, 0, s)
         | Capture shot # rest \<Rightarrow>
             (case loop_body get_image_hash s shot of
                (Break, s') \<Rightarrow> (Complete, 1, s')
              | (Continue, s') \<Rightarrow>
                  (case capture_loop get_image_hash max_pages s' rest of
                     (e, n, t) \<Rightarrow> (e, Suc n, t))))
      else (Ceiling, 0, s))"

declare capture_loop.simps [simp del]

text \<open>The three components of the loop's result.\<close>

definition loop_ending :: "ending \<times> nat \<times> ('f, 'h) capture_state \<Rightarrow> ending" where
  "loop_ending r = fst r"

definition loop_passes :: "ending \<times> nat \<times> ('f, 'h) capture_state \<Rightarrow> nat" where
  "loop_passes r = fst (snd r)"

definition loop_state :: "ending \<times> nat \<times> ('f, 'h) capture_state \<Rightarrow> ('f, 'h) capture_state" where
  "loop_state r = snd (snd r)"

text \<open>
  The default of the parameter \<open>max_pages\<close> (also the default of the command line option
  \<open>--max-pages\<close>), and the value the loop runs with: \<open>run_capture\<close> starts with
  \<open>if test_mode: max_pages = 5\<close>.
\<close>

definition default_max_pages :: int where
  "default_max_pages = 2000"

definition effective_max_pages :: "bool \<Rightarrow> int \<Rightarrow> int" where
  "effective_max_pages test_mode max_pages = (if test_mode then 5 else max_pages)"

subsection \<open>Counting page changes, in the words of the specification\<close>

text \<open>
  The number of fingerprints of a sequence that differ from their immediate predecessor,
  the first one counting as differing.
\<close>

definition count_changes :: "'h list \<Rightarrow> nat" where
  "count_changes fps =
     length (filter (\<lambda>i. i = 0 \<or> fps ! i \<noteq> fps ! (i - 1)) [0..<length fps])"

text \<open>The same count by recursion, given the fingerprint before the sequence, if any.\<close>

fun changes_from :: "'h option \<Rightarrow> 'h list \<Rightarrow> nat" where
  "changes_from prev [] = 0"
| "changes_from prev (x # xs) = (if Some x = prev then 0 else 1) + changes_from (Some x) xs"

text \<open>The index-based count with an explicit predecessor for position 0 (used in proofs).\<close>

definition changes_idx :: "'h option \<Rightarrow> 'h list \<Rightarrow> nat" where
  "changes_idx prev fps =
     length (filter (\<lambda>i. if i = 0 then Some (fps ! 0) \<noteq> prev else fps ! i \<noteq> fps ! (i - 1))
               [0..<length fps])"

subsection \<open>Counting duplicates in a row, in the words of the specification\<close>

text \<open>
  The fingerprints of the frames that a list of ticks captures, in order; a failed capture
  and an interrupt capture nothing.
\<close>

fun fingerprints :: "('f \<Rightarrow> 'h) \<Rightarrow> 'f tick list \<Rightarrow> 'h list" where
  "fingerprints h [] = []"
| "fingerprints h (Capture (Some img) # ticks) = h img # fingerprints h ticks"
| "fingerprints h (Capture None # ticks) = fingerprints h ticks"
| "fingerprints h (KeyboardInterrupt # ticks) = fingerprints h ticks"

text \<open>
  The number of fingerprints at the end of a sequence that each equal their immediate
  predecessor: the length of the run of duplicates the sequence ends with.
\<close>

definition trailing_duplicates :: "'h list \<Rightarrow> nat" where
  "trailing_duplicates fps =
     length (takeWhile (\<lambda>i. 0 < i \<and> fps ! i = fps ! (i - 1)) (rev [0..<length fps]))"

text \<open>
  The same count by recursion from the front, given the fingerprint before the sequence and
  the duplicates counted so far (used in proofs).
\<close>

fun dup_run :: "'h option \<Rightarrow> int \<Rightarrow> 'h list \<Rightarrow> int" where
  "dup_run prev c [] = c"
| "dup_run prev c (x # xs) = dup_run (Some x) (if Some x = prev then c + 1 else 0) xs"

text \<open>
  A bound on the passes still to come: five for every page index below the ceiling, less
  the duplicates already counted.
\<close>

definition remaining :: "int \<Rightarrow> ('f, 'h) capture_state \<Rightarrow> nat" where
  "remaining max_pages s = 5 * nat (max_pages - page s) - nat (same_count s)"

section \<open>After the loop: post-processing, assembly, clean-up\<close>

text \<open>
  \<open>process_images\<close> rewrites every \<open>page_*.png\<close> of the folder in place. What it does to
  one image (crop 50 pixels at the top and at the bottom, \<open>trim_whitespace\<close>, save) is the
  parameter \<open>process_image\<close>.
\<close>

definition process_images :: "('f \<Rightarrow> 'f) \<Rightarrow> (int \<times> 'f) list \<Rightarrow> (int \<times> 'f) list" where
  "process_images process_image files = map (\<lambda>(k, img). (k, process_image img)) files"

text \<open>
  \<open>images_to_pdf\<close> returns \<open>False\<close> and writes nothing when the folder holds no
  \<open>page_*.png\<close>; otherwise it writes one PDF page per file and returns \<open>True\<close>. The
  result is the returned flag and the pages of the PDF written, if any. The conversion of
  one image to RGB is the parameter \<open>to_rgb\<close>. The files are taken in the order of their
  page index (\<open>sorted\<close> orders the names, which is the order of the indices as long as
  these have at most four digits). This is the function when no call into the imaging
  library raises; \<open>images_to_pdf_exn\<close> below has the exceptions.
\<close>

definition images_to_pdf :: "('f \<Rightarrow> 'f) \<Rightarrow> (int \<times> 'f) list \<Rightarrow> bool \<times> 'f list option" where
  "images_to_pdf to_rgb files =
     (let image_files = map snd (sort_key fst files)
      in if image_files = [] then (False, None)
         else (True, Some (map to_rgb image_files)))"

text \<open>
  What a call of \<open>run_capture\<close> leaves behind: the value returned (the path of the PDF, or
  \<open>None\<close>), the output folder (\<open>None\<close> once \<open>shutil.rmtree\<close> has removed it), and the
  PDF written, if any.
\<close>

record 'f capture_result =
  returned :: "string option"
  folder_left :: "(int \<times> 'f) list option"
  pdf_file :: "'f list option"

text \<open>
  \<open>run_capture\<close>, lines 500 to 652. \<open>bounds_ok\<close> says whether the first
  \<open>get_kindle_window_bounds\<close> found the window; \<open>output_pdf\<close> is the file name the
  function computes from the book name and the time stamp. The result is \<open>None\<close> when the
  list of ticks ran out before the loop was left.
\<close>

definition run_capture ::
  "('f \<Rightarrow> 'h) \<Rightarrow> ('f \<Rightarrow> 'f) \<Rightarrow> ('f \<Rightarrow> 'f) \<Rightarrow> string \<Rightarrow> int \<Rightarrow> bool \<Rightarrow> bool \<Rightarrow> 'f tick list
     \<Rightarrow> 'f capture_result option" where
  "run_capture get_image_hash process_image to_rgb output_pdf max_pages test_mode bounds_ok ticks =
     (let max_pages = effective_max_pages test_mode max_pages in
      if \<not> bounds_ok then
        Some \<lparr>returned = None, folder_left = Some [], pdf_file = None\<rparr>
      else
        (case capture_loop get_image_hash max_pages initial_state ticks of
           (Exhausted, n, s) \<Rightarrow> None
         | (e, n, s) \<Rightarrow>
             if test_mode \<and> \<not> length (folder s) \<ge> 3 then
               Some \<lparr>returned = None, folder_left = None, pdf_file = None\<rparr>
             else
               (let processed = process_images process_image (folder s)
                in case images_to_pdf to_rgb processed of
                     (True, pdf) \<Rightarrow>
                       Some \<lparr>returned = Some output_pdf, folder_left = None, pdf_file = pdf\<rparr>
                   | (False, pdf) \<Rightarrow>
                       Some \<lparr>returned = None, folder_left = Some processed,
                             pdf_file = pdf\<rparr>)))"

subsection \<open>Assembly when the imaging library raises\<close>

text \<open>
  \<open>images_to_pdf\<close> and \<open>run_capture\<close> above are the functions as they run when no call
  into the imaging library raises. \<open>Image.open\<close>, the conversion to RGB and
  \<open>first_image.save\<close> can raise, and neither \<open>images_to_pdf\<close> nor \<open>run_capture\<close> catches
  anything but \<open>KeyboardInterrupt\<close> in the loop, so such an exception leaves \<open>run_capture\<close>
  at that point. The definitions below are the same two functions with that made explicit.
\<close>

datatype py_exception = ImagingError

text \<open>
  The \<open>for img_path in image_files\<close> loop of \<open>images_to_pdf\<close>: \<open>open_rgb\<close> is
  \<open>Image.open\<close> followed by the conversion to RGB, \<open>None\<close> when one of them raises; the
  first file that raises ends the loop.
\<close>

fun open_all :: "('f \<Rightarrow> 'f option) \<Rightarrow> 'f list \<Rightarrow> 'f list option" where
  "open_all open_rgb [] = Some []"
| "open_all open_rgb (f # fs) =
     (case open_rgb f of
        None \<Rightarrow> None
      | Some p \<Rightarrow> (case open_all open_rgb fs of None \<Rightarrow> None | Some ps \<Rightarrow> Some (p # ps)))"

text \<open>
  \<open>images_to_pdf\<close>, lines 444 to 493. \<open>save_pdf pages\<close> says whether
  \<open>first_image.save\<close> writes the PDF (\<open>False\<close>: it raises). The result is the exception,
  or the returned flag with the pages of the PDF written.
\<close>

definition images_to_pdf_exn ::
  "('f \<Rightarrow> 'f option) \<Rightarrow> ('f list \<Rightarrow> bool) \<Rightarrow> (int \<times> 'f) list
     \<Rightarrow> py_exception + (bool \<times> 'f list option)" where
  "images_to_pdf_exn open_rgb save_pdf files =
     (let image_files = map snd (sort_key fst files)
      in if image_files = [] then Inr (False, None)
         else (case open_all open_rgb image_files of
                 None \<Rightarrow> Inl ImagingError
               | Some pages \<Rightarrow>
                   if save_pdf pages then Inr (True, Some pages) else Inl ImagingError))"

text \<open>
  What a call leaves behind: the exception or the value returned, and the output folder
  (\<open>None\<close> once \<open>shutil.rmtree\<close> has removed it).
\<close>

record 'f capture_effect =
  outcome :: "py_exception + string option"
  folder_after :: "(int \<times> 'f) list option"

text \<open>\<open>run_capture\<close>, lines 500 to 652, an exception of \<open>images_to_pdf\<close> passing through.\<close>

definition run_capture_exn ::
  "('f \<Rightarrow> 'h) \<Rightarrow> ('f \<Rightarrow> 'f) \<Rightarrow> ('f \<Rightarrow> 'f option) \<Rightarrow> ('f list \<Rightarrow> bool) \<Rightarrow> string \<Rightarrow> int
     \<Rightarrow> bool \<Rightarrow> bool \<Rightarrow> 'f tick list \<Rightarrow> 'f capture_effect option" where
  "run_capture_exn get_image_hash process_image open_rgb save_pdf output_pdf max_pages test_mode
       bounds_ok ticks =
     (let max_pages = effective_max_pages test_mode max_pages in
      if \<not> bounds_ok then
        Some \<lparr>outcome = Inr None, folder_after = Some []\<rparr>
      else
        (case capture_loop get_image_hash max_pages initial_state ticks of
           (Exhausted, n, s) \<Rightarrow> None
         | (e, n, s) \<Rightarrow>
             if test_mode \<and> \<not> length (folder s) \<ge> 3 then
               Some \<lparr>outcome = Inr None, folder_after = None\<rparr>
             else
               (let processed = process_images process_image (folder s)
                in case images_to_pdf_exn open_rgb save_pdf processed of
                     Inl exn \<Rightarrow>
                       Some \<lparr>outcome = Inl exn, folder_after = Some processed\<rparr>
                   | Inr (True, pdf) \<Rightarrow>
                       Some \<lparr>outcome = Inr (Some output_pdf), folder_after = None\<rparr>
                   | Inr (False, pdf) \<Rightarrow>
                       Some \<lparr>outcome = Inr None, folder_after = Some processed\<rparr>)))"

section \<open>\<open>trim_whitespace\<close>\<close>

text \<open>
  An image is its size and its pixels; \<open>pixel img x y\<close> is the pixel in column \<open>x\<close> and
  row \<open>y\<close>, and only the values with \<open>x < width img\<close> and \<open>y < height img\<close> belong
  to the image.
\<close>

record 'px image =
  width :: nat
  height :: nat
  pixel :: "nat \<Rightarrow> nat \<Rightarrow> 'px"

text \<open>
  The three calls into the imaging library that \<open>trim_whitespace\<close> makes.
  \<open>convert('L')\<close> maps every pixel to its grey level; the map for one pixel is the
  parameter \<open>lum\<close>. \<open>getbbox\<close> returns the bounding box \<open>(left, upper, right, lower)\<close>
  of the pixels that are not zero, right and lower bound excluded, or \<open>None\<close> when
  there is no such pixel. \<open>crop\<close> cuts the box \<open>(x1, y1, x2, y2)\<close> out of the image; the
  model is that of a box inside the image, the only boxes \<open>trim_whitespace\<close> asks for.
\<close>

definition convert_L :: "('px \<Rightarrow> nat) \<Rightarrow> 'px image \<Rightarrow> nat image" where
  "convert_L lum img =
     \<lparr>width = width img, height = height img, pixel = (\<lambda>x y. lum (pixel img x y))\<rparr>"

definition getbbox :: "nat image \<Rightarrow> (nat \<times> nat \<times> nat \<times> nat) option" where
  "getbbox g =
     (let cols = filter (\<lambda>x. \<exists>y\<in>set [0..<height g]. pixel g x y \<noteq> 0) [0..<width g];
          rows = filter (\<lambda>y. \<exists>x\<in>set [0..<width g]. pixel g x y \<noteq> 0) [0..<height g]
      in if cols = [] then None
         else Some (hd cols, hd rows, last cols + 1, last rows + 1))"

definition crop :: "'px image \<Rightarrow> int \<times> int \<times> int \<times> int \<Rightarrow> 'px image" where
  "crop img box =
     (case box of (x1, y1, x2, y2) \<Rightarrow>
        \<lparr>width = nat (x2 - x1), height = nat (y2 - y1),
         pixel = (\<lambda>x y. pixel img (nat (int x + x1)) (nat (int y + y1)))\<rparr>)"

text \<open>\<open>trim_whitespace\<close>, lines 412 to 437.\<close>

definition trim_whitespace :: "('px \<Rightarrow> nat) \<Rightarrow> 'px image \<Rightarrow> 'px image" where
  "trim_whitespace lum img =
     (let gray = convert_L lum img;
          bbox = getbbox gray
      in case bbox of
           Some (b0, b1, b2, b3) \<Rightarrow>
             (let margin = 10;
                  x1 = max 0 (int b0 - margin);
                  y1 = max 0 (int b1 - margin);
                  x2 = min (int (width img)) (int b2 + margin);
                  y2 = min (int (height img)) (int b3 + margin)
              in crop img (x1, y1, x2, y2))
         | None \<Rightarrow> img)"

text \<open>
  What it means for \<open>(b0, b1, b2, b3)\<close> to be the bounding box of the pixels of \<open>g\<close> that
  are not zero: every such pixel lies inside, and each of the four sides touches one.
\<close>

definition tight_box :: "nat image \<Rightarrow> nat \<Rightarrow> nat \<Rightarrow> nat \<Rightarrow> nat \<Rightarrow> bool" where
  "tight_box g b0 b1 b2 b3 \<longleftrightarrow>
     b0 < b2 \<and> b2 \<le> width g \<and> b1 < b3 \<and> b3 \<le> height g \<and>
     (\<forall>x y. x < width g \<longrightarrow> y < height g \<longrightarrow> pixel g x y \<noteq> 0 \<longrightarrow>
        b0 \<le> x \<and> x < b2 \<and> b1 \<le> y \<and> y < b3) \<and>
     (\<exists>y<height g. pixel g b0 y \<noteq> 0) \<and> (\<exists>y<height g. pixel g (b2 - 1) y \<noteq> 0) \<and>
     (\<exists>x<width g. pixel g x b1 \<noteq> 0) \<and> (\<exists>x<width g. pixel g x (b3 - 1) \<noteq> 0)"

section \<open>Properties of the capture loop\<close>

subsection \<open>Unfolding the loop and its body\<close>

lemma capture_loop_ceiling:
  "\<not> page s < max_pages \<Longrightarrow> capture_loop h max_pages s ticks = (Ceiling, 0, s)"
  by (simp add: capture_loop.simps)

lemma capture_loop_Nil:
  "page s < max_pages \<Longrightarrow> capture_loop h max_pages s [] = (Exhausted, 0, s)"
  by (simp add: capture_loop.simps)

lemma capture_loop_interrupt:
  "page s < max_pages \<Longrightarrow>
   capture_loop h max_pages s (KeyboardInterrupt # rest) = (Cancelled, 0, s)"
  by (simp add: capture_loop.simps)

lemma capture_loop_Capture:
  "page s < max_pages \<Longrightarrow>
   capture_loop h max_pages s (Capture shot # rest) =
     (case loop_body h s shot of
        (Break, s') \<Rightarrow> (Complete, 1, s')
      | (Continue, s') \<Rightarrow>
          (case capture_loop h max_pages s' rest of (e, n, t) \<Rightarrow> (e, Suc n, t)))"
  by (simp add: capture_loop.simps)

lemma loop_body_failed:
  "loop_body h s None = (Continue, s\<lparr>page := page s + 1\<rparr>)"
  by (simp add: loop_body_def)

lemma loop_body_new:
  "Some (h img) \<noteq> last_hash s \<Longrightarrow>
   loop_body h s (Some img) =
     (Continue, s\<lparr>same_count := 0, failed_turns := 0, last_hash := Some (h img),
                  page := page s + 1, folder := AList.update (page s + 1) img (folder s)\<rparr>)"
  by (simp add: loop_body_def Let_def)

lemma loop_body_duplicate:
  "Some (h img) = last_hash s \<Longrightarrow>
   loop_body h s (Some img) =
     (if same_count s + 1 \<ge> 5 then
        (Break, s\<lparr>same_count := same_count s + 1, page := page s,
                  folder := AList.delete (page s + 1) (folder s)\<rparr>)
      else
        (Continue, s\<lparr>same_count := same_count s + 1, page := page s,
                     folder := AList.delete (page s + 1) (folder s),
                     failed_turns := failed_turns s + 1\<rparr>))"
  by (simp add: loop_body_def Let_def delete_update_same)

lemma loop_page_changes:
  "capture_loop h max_pages s (map (\<lambda>img. Capture (Some img)) imgs) = (e, n, t) \<Longrightarrow>
   n \<le> length imgs \<and>
   page t = page s + int (changes_from (last_hash s) (map h (take n imgs))) \<and>
   (e = Exhausted \<longrightarrow> n = length imgs) \<and> e \<noteq> Cancelled"
proof (induction imgs arbitrary: s e n t)
  case Nil
  then show ?case
    by (cases "page s < max_pages") (auto simp: capture_loop_ceiling capture_loop_Nil)
next
  case (Cons img imgs)
  show ?case
  proof (cases "page s < max_pages")
    case False
    with Cons.prems show ?thesis by (auto simp: capture_loop_ceiling)
  next
    case True
    show ?thesis
    proof (cases "Some (h img) = last_hash s")
      case dup: True
      show ?thesis
      proof (cases "same_count s + 1 \<ge> 5")
        case True
        with Cons.prems \<open>page s < max_pages\<close> dup show ?thesis
          by (auto simp: capture_loop_Capture loop_body_duplicate)
      next
        case False
        let ?s' = "s\<lparr>same_count := same_count s + 1, page := page s,
                     folder := AList.delete (page s + 1) (folder s),
                     failed_turns := failed_turns s + 1\<rparr>"
        obtain e' n' t' where r: "capture_loop h max_pages ?s' (map (\<lambda>img. Capture (Some img)) imgs) = (e', n', t')"
          by (metis prod_cases3)
        from Cons.prems \<open>page s < max_pages\<close> dup False r
        have eq: "e = e'" "n = Suc n'" "t = t'"
          by (auto simp: capture_loop_Capture loop_body_duplicate)
        from Cons.IH[OF r] dup show ?thesis unfolding eq by auto
      qed
    next
      case new: False
      let ?s' = "s\<lparr>same_count := 0, failed_turns := 0, last_hash := Some (h img),
                  page := page s + 1, folder := AList.update (page s + 1) img (folder s)\<rparr>"
      obtain e' n' t' where r: "capture_loop h max_pages ?s' (map (\<lambda>img. Capture (Some img)) imgs) = (e', n', t')"
        by (metis prod_cases3)
      from Cons.prems \<open>page s < max_pages\<close> new r
      have eq: "e = e'" "n = Suc n'" "t = t'"
        by (auto simp: capture_loop_Capture loop_body_new)
      from Cons.IH[OF r] new show ?thesis unfolding eq by auto
    qed
  qed
qed

lemma filter_upt_Suc_shift:
  "filter P [0..<Suc n] = (if P 0 then [0] else []) @ map Suc (filter (\<lambda>i. P (Suc i)) [0..<n])"
proof -
  have "[0..<Suc n] = 0 # map Suc [0..<n]"
    by (simp add: upt_conv_Cons map_Suc_upt del: upt_Suc)
  then show ?thesis by (simp add: filter_map comp_def del: upt_Suc)
qed

lemma changes_idx_Cons:
  "changes_idx prev (x # xs) = (if Some x = prev then 0 else 1) + changes_idx (Some x) xs"
proof -
  have "(\<lambda>i. (x # xs) ! Suc i \<noteq> (x # xs) ! (Suc i - 1))
        = (\<lambda>i. if i = 0 then Some (xs ! 0) \<noteq> Some x else xs ! i \<noteq> xs ! (i - 1))"
    by (rule ext) (auto simp: nth_Cons')
  then show ?thesis
    unfolding changes_idx_def by (simp add: filter_upt_Suc_shift del: upt_Suc)
qed

lemma changes_idx_eq: "changes_idx prev fps = changes_from prev fps"
  by (induction fps arbitrary: prev) (simp_all add: changes_idx_Cons, simp add: changes_idx_def)

lemma count_changes_eq: "count_changes fps = changes_from None fps"
proof -
  have "count_changes fps = changes_idx None fps"
    unfolding count_changes_def changes_idx_def
    by (rule arg_cong[where f=length], rule filter_cong) auto
  then show ?thesis by (simp add: changes_idx_eq)
qed

subsection \<open>The duplicate counter\<close>

text \<open>
  \<open>same_count\<close> stays between 0 and 4 as long as the loop runs, and is 5 exactly after
  the \<open>break\<close>.
\<close>

lemma loop_same_count:
  "capture_loop h max_pages s ticks = (e, n, t) \<Longrightarrow> 0 \<le> same_count s \<Longrightarrow> same_count s \<le> 4 \<Longrightarrow>
   (if e = Complete then same_count t = 5 else 0 \<le> same_count t \<and> same_count t \<le> 4)"
proof (induction ticks arbitrary: s e n t)
  case Nil
  then show ?case
    by (cases "page s < max_pages") (auto simp: capture_loop_ceiling capture_loop_Nil)
next
  case (Cons tk ticks)
  show ?case
  proof (cases "page s < max_pages")
    case False
    with Cons.prems show ?thesis by (auto simp: capture_loop_ceiling)
  next
    case True
    show ?thesis
    proof (cases tk)
      case KeyboardInterrupt
      with Cons.prems True show ?thesis by (auto simp: capture_loop_interrupt)
    next
      case (Capture shot)
      obtain c s' where b: "loop_body h s shot = (c, s')" by (metis surj_pair)
      show ?thesis
      proof (cases c)
        case Break
        with b Cons.prems True Capture have "e = Complete" "t = s'"
          by (auto simp: capture_loop_Capture)
        moreover from b Break Cons.prems(2,3) have "same_count s' = 5"
          by (auto simp: loop_body_def Let_def split: option.splits if_splits)
        ultimately show ?thesis by simp
      next
        case Continue
        obtain e' n' t' where r: "capture_loop h max_pages s' ticks = (e', n', t')"
          by (metis prod_cases3)
        with b Continue Cons.prems True Capture have eq: "e = e'" "t = t'"
          by (auto simp: capture_loop_Capture)
        from b Continue Cons.prems(2,3) have "0 \<le> same_count s'" "same_count s' \<le> 4"
          by (auto simp: loop_body_def Let_def split: option.splits if_splits)
        from Cons.IH[OF r this] show ?thesis unfolding eq .
      qed
    qed
  qed
qed

lemma loop_body_remaining:
  assumes "loop_body h s shot = (Continue, s')" "page s < max_pages"
    "0 \<le> same_count s" "same_count s \<le> 4"
  shows "Suc (remaining max_pages s') \<le> remaining max_pages s \<and> 0 \<le> same_count s' \<and> same_count s' \<le> 4"
  using assms
  by (auto simp: loop_body_def Let_def remaining_def split: option.splits if_splits)

lemma loop_bounded:
  "capture_loop h max_pages s ticks = (e, n, t) \<Longrightarrow> 0 \<le> same_count s \<Longrightarrow> same_count s \<le> 4 \<Longrightarrow>
   n \<le> remaining max_pages s \<and> n \<le> length ticks \<and>
   (remaining max_pages s \<le> length ticks \<longrightarrow> e \<noteq> Exhausted)"
proof (induction ticks arbitrary: s e n t)
  case Nil
  then show ?case
    by (cases "page s < max_pages")
       (auto simp: capture_loop_ceiling capture_loop_Nil remaining_def)
next
  case (Cons tk ticks)
  show ?case
  proof (cases "page s < max_pages")
    case False
    with Cons.prems show ?thesis by (auto simp: capture_loop_ceiling)
  next
    case True
    show ?thesis
    proof (cases tk)
      case KeyboardInterrupt
      with Cons.prems True show ?thesis by (auto simp: capture_loop_interrupt)
    next
      case (Capture shot)
      obtain c s' where b: "loop_body h s shot = (c, s')" by (metis surj_pair)
      from True Cons.prems(2,3) have pos: "1 \<le> remaining max_pages s"
        by (simp add: remaining_def)
      show ?thesis
      proof (cases c)
        case Break
        with b Cons.prems True Capture have "e = Complete" "n = 1"
          by (auto simp: capture_loop_Capture)
        with pos show ?thesis by simp
      next
        case Continue
        obtain e' n' t' where r: "capture_loop h max_pages s' ticks = (e', n', t')"
          by (metis prod_cases3)
        with b Continue Cons.prems True Capture have eq: "e = e'" "n = Suc n'"
          by (auto simp: capture_loop_Capture)
        from loop_body_remaining[OF b[unfolded Continue] True Cons.prems(2,3)]
        have d: "Suc (remaining max_pages s') \<le> remaining max_pages s"
          and i: "0 \<le> same_count s'" "same_count s' \<le> 4" by auto
        from Cons.IH[OF r i] d show ?thesis unfolding eq by auto
      qed
    qed
  qed
qed

subsection \<open>A run of new pages\<close>

lemma update_fresh:
  "k \<notin> fst ` set al \<Longrightarrow> AList.update k v al = al @ [(k, v)]"
  by (induction al) auto



subsection \<open>Frames in the folder when no capture fails\<close>

text \<open>
  As long as every \<open>capture_window\<close> call succeeds, the files in the folder are numbered
  from 1 to \<open>page\<close> without a gap, so \<open>page\<close> is the number of frames retained.
\<close>

lemma loop_body_keeps_count:
  assumes "loop_body h s (Some img) = (c, s')"
    and "map fst (folder s) = [1..page s]" and "0 \<le> page s"
  shows "map fst (folder s') = [1..page s'] \<and> 0 \<le> page s'"
proof -
  from assms(2) have "fst ` set (folder s) = {1..page s}"
    by (metis set_map set_upto)
  then have fresh: "page s + 1 \<notin> fst ` set (folder s)" by simp
  have up: "[1..page s + 1] = [1..page s] @ [page s + 1]"
    using assms(3) by (simp add: upto_rec2)
  show ?thesis
  proof (cases "Some (h img) = last_hash s")
    case True
    with assms fresh show ?thesis
      by (auto simp: loop_body_duplicate split: if_splits)
  next
    case False
    with assms fresh up show ?thesis
      by (auto simp: loop_body_new update_fresh)
  qed
qed

lemma loop_without_failure_counts_frames:
  "capture_loop h max_pages s ticks = (e, n, t) \<Longrightarrow> Capture None \<notin> set ticks \<Longrightarrow>
   map fst (folder s) = [1..page s] \<Longrightarrow> 0 \<le> page s \<Longrightarrow>
   map fst (folder t) = [1..page t] \<and> 0 \<le> page t"
proof (induction ticks arbitrary: s e n t)
  case Nil
  then show ?case
    by (cases "page s < max_pages") (auto simp: capture_loop_ceiling capture_loop_Nil)
next
  case (Cons tk ticks)
  show ?case
  proof (cases "page s < max_pages")
    case False
    with Cons.prems show ?thesis by (auto simp: capture_loop_ceiling)
  next
    case True
    show ?thesis
    proof (cases tk)
      case KeyboardInterrupt
      with Cons.prems True show ?thesis by (auto simp: capture_loop_interrupt)
    next
      case (Capture shot)
      with Cons.prems(2) obtain img where shot: "shot = Some img" by (cases shot) auto
      obtain c s' where b: "loop_body h s (Some img) = (c, s')" by (metis surj_pair)
      note inv = loop_body_keeps_count[OF b Cons.prems(3,4)]
      show ?thesis
      proof (cases c)
        case Break
        with b Cons.prems(1) True Capture shot have "t = s'"
          by (auto simp: capture_loop_Capture)
        with inv show ?thesis by simp
      next
        case Continue
        obtain e' n' t' where r: "capture_loop h max_pages s' ticks = (e', n', t')"
          by (metis prod_cases3)
        with b Continue Cons.prems(1) True Capture shot have eq: "t = t'"
          by (auto simp: capture_loop_Capture)
        from Cons.prems(2) have "Capture None \<notin> set ticks" by simp
        from Cons.IH[OF r this] inv show ?thesis unfolding eq by blast
      qed
    qed
  qed
qed

lemma page_is_frame_count_without_failure:
  "capture_loop h max_pages initial_state ticks = (e, n, t) \<Longrightarrow> Capture None \<notin> set ticks \<Longrightarrow>
   page t = int (length (folder t))"
proof -
  assume r: "capture_loop h max_pages initial_state ticks = (e, n, t)"
    and nf: "Capture None \<notin> set ticks"
  have "map fst (folder (initial_state :: ('a, 'b) capture_state)) = [1..page (initial_state :: ('a, 'b) capture_state)]"
    by (simp add: initial_state_def)
  moreover have "0 \<le> page (initial_state :: ('a, 'b) capture_state)" by (simp add: initial_state_def)
  ultimately have i: "map fst (folder t) = [1..page t]" "0 \<le> page t"
    using loop_without_failure_counts_frames[OF r nf] by blast+
  from i(1) have "length (folder t) = length [1..page t]" by (metis length_map)
  with i(2) show ?thesis by simp
qed

subsection \<open>The duplicate counter counts duplicates in a row\<close>

text \<open>
  After the loop \<open>same_count\<close> is the length of the run of duplicates that the captured
  fingerprints end with: a new fingerprint starts the count again, a failed capture leaves
  it alone.
\<close>

lemma loop_same_count_dup_run:
  "capture_loop h max_pages s ticks = (e, n, t) \<Longrightarrow>
   same_count t = dup_run (last_hash s) (same_count s) (fingerprints h (take n ticks))"
proof (induction ticks arbitrary: s e n t)
  case Nil
  then show ?case
    by (cases "page s < max_pages") (auto simp: capture_loop_ceiling capture_loop_Nil)
next
  case (Cons tk ticks)
  show ?case
  proof (cases "page s < max_pages")
    case False
    with Cons.prems show ?thesis by (auto simp: capture_loop_ceiling)
  next
    case True
    show ?thesis
    proof (cases tk)
      case KeyboardInterrupt
      with Cons.prems True show ?thesis by (auto simp: capture_loop_interrupt)
    next
      case (Capture shot)
      show ?thesis
      proof (cases shot)
        case None
        let ?s' = "s\<lparr>page := page s + 1\<rparr>"
        obtain e' n' t' where r: "capture_loop h max_pages ?s' ticks = (e', n', t')"
          by (metis prod_cases3)
        with Cons.prems True Capture None have eq: "n = Suc n'" "t = t'"
          by (auto simp: capture_loop_Capture loop_body_failed)
        from Cons.IH[OF r] show ?thesis unfolding eq Capture None by simp
      next
        case (Some img)
        show ?thesis
        proof (cases "Some (h img) = last_hash s")
          case dup: True
          show ?thesis
          proof (cases "same_count s + 1 \<ge> 5")
            case brk: True
            with Cons.prems True Capture Some dup have "n = 1" "same_count t = same_count s + 1"
              by (auto simp: capture_loop_Capture loop_body_duplicate)
            with dup show ?thesis unfolding Capture Some by simp
          next
            case False
            let ?s' = "s\<lparr>same_count := same_count s + 1, page := page s,
                         folder := AList.delete (page s + 1) (folder s),
                         failed_turns := failed_turns s + 1\<rparr>"
            obtain e' n' t' where r: "capture_loop h max_pages ?s' ticks = (e', n', t')"
              by (metis prod_cases3)
            with Cons.prems True Capture Some dup False have eq: "n = Suc n'" "t = t'"
              by (auto simp: capture_loop_Capture loop_body_duplicate)
            from Cons.IH[OF r] dup show ?thesis unfolding eq Capture Some by simp
          qed
        next
          case new: False
          let ?s' = "s\<lparr>same_count := 0, failed_turns := 0, last_hash := Some (h img),
                      page := page s + 1, folder := AList.update (page s + 1) img (folder s)\<rparr>"
          obtain e' n' t' where r: "capture_loop h max_pages ?s' ticks = (e', n', t')"
            by (metis prod_cases3)
          with Cons.prems True Capture Some new have eq: "n = Suc n'" "t = t'"
            by (auto simp: capture_loop_Capture loop_body_new)
          from Cons.IH[OF r] new show ?thesis unfolding eq Capture Some by simp
        qed
      qed
    qed
  qed
qed

lemma dup_run_snoc:
  "dup_run prev c (xs @ [x]) =
     (if Some x = (if xs = [] then prev else Some (last xs)) then dup_run prev c xs + 1 else 0)"
  by (induction xs arbitrary: prev c) simp_all

lemma trailing_duplicates_snoc:
  "trailing_duplicates (xs @ [x]) =
     (if xs \<noteq> [] \<and> x = last xs then trailing_duplicates xs + 1 else 0)"
proof -
  let ?P = "\<lambda>ys i. 0 < i \<and> ys ! i = ys ! (i - 1)"
  have same: "takeWhile (?P (xs @ [x])) (rev [0..<length xs])
                = takeWhile (?P xs) (rev [0..<length xs])"
    by (rule takeWhile_cong) (auto simp: nth_append)
  have top: "?P (xs @ [x]) (length xs) \<longleftrightarrow> xs \<noteq> [] \<and> x = last xs"
    by (cases "xs = []") (auto simp: nth_append last_conv_nth)
  have "trailing_duplicates (xs @ [x])
          = length (takeWhile (?P (xs @ [x])) (length xs # rev [0..<length xs]))"
    by (simp add: trailing_duplicates_def)
  also have "\<dots> = (if ?P (xs @ [x]) (length xs)
                     then Suc (length (takeWhile (?P (xs @ [x])) (rev [0..<length xs]))) else 0)"
    by simp
  also have "\<dots> = (if xs \<noteq> [] \<and> x = last xs then trailing_duplicates xs + 1 else 0)"
    unfolding same top by (simp add: trailing_duplicates_def)
  finally show ?thesis .
qed

lemma dup_run_trailing: "dup_run None 0 fps = int (trailing_duplicates fps)"
proof (induction fps rule: rev_induct)
  case Nil
  show ?case by (simp add: trailing_duplicates_def)
next
  case (snoc x xs)
  then show ?case by (simp add: dup_run_snoc trailing_duplicates_snoc)
qed

section \<open>The claims about the capture loop\<close>

text \<open>Rules that evaluate the loop on a concrete list of ticks.\<close>

lemmas loop_eval =
  capture_loop_Capture capture_loop_ceiling capture_loop_Nil capture_loop_interrupt
  loop_body_def Let_def initial_state_def loop_ending_def loop_passes_def loop_state_def

text \<open>
  C1. For every finite sequence of frames fed to the loop, every capture succeeding and no
  interrupt, \<open>page\<close> after the loop is the number of fingerprints, among those the loop
  has consumed, that differ from their immediate predecessor, the first one counting as
  differing. The loop consumes one frame per pass, so the fingerprints fed to it are those
  of the first \<open>loop_passes\<close> frames; it consumes all of the list unless it was left
  before. A pass on a duplicate leaves \<open>page\<close> as it was.
\<close>

theorem page_index_counts_changes:
  "(let r = capture_loop h max_pages initial_state (map (\<lambda>img. Capture (Some img)) imgs);
        fed = map h (take (loop_passes r) imgs)
    in loop_passes r \<le> length imgs \<and>
       (loop_ending r = Exhausted \<longrightarrow> loop_passes r = length imgs) \<and>
       page (loop_state r) = int (count_changes fed)) \<and>
   (Some (h img) = last_hash s \<longrightarrow> page (snd (loop_body h s (Some img))) = page s)"
proof -
  obtain e n t where
    r: "capture_loop h max_pages initial_state (map (\<lambda>img. Capture (Some img)) imgs) = (e, n, t)"
    by (metis prod_cases3)
  from loop_page_changes[OF r] have
    "n \<le> length imgs" "e = Exhausted \<longrightarrow> n = length imgs"
    "page t = int (count_changes (map h (take n imgs)))"
    by (simp_all add: initial_state_def count_changes_eq)
  then have "let r = capture_loop h max_pages initial_state (map (\<lambda>img. Capture (Some img)) imgs);
        fed = map h (take (loop_passes r) imgs)
    in loop_passes r \<le> length imgs \<and>
       (loop_ending r = Exhausted \<longrightarrow> loop_passes r = length imgs) \<and>
       page (loop_state r) = int (count_changes fed)"
    by (simp add: r Let_def loop_ending_def loop_passes_def loop_state_def)
  moreover have "Some (h img) = last_hash s \<longrightarrow> page (snd (loop_body h s (Some img))) = page s"
    by (simp add: loop_body_duplicate)
  ultimately show ?thesis by blast
qed

theorem page_index_counts_changes_witness:
  "loop_ending (capture_loop id 3 initial_state
      (map (\<lambda>img. Capture (Some img)) [''A'', ''A'', ''B'', ''C'', ''D''])) = Ceiling \<and>
   loop_passes (capture_loop id 3 initial_state
      (map (\<lambda>img. Capture (Some img)) [''A'', ''A'', ''B'', ''C'', ''D''])) = 4 \<and>
   count_changes [''A'', ''A'', ''B'', ''C''] = 3"
proof -
  let ?r = "capture_loop id 3 (initial_state :: (string, string) capture_state)
      (map (\<lambda>img. Capture (Some img)) [''A'', ''A'', ''B'', ''C'', ''D''])"
  have e: "loop_ending ?r = Ceiling" "loop_passes ?r = 4" "page (loop_state ?r) = 3"
    by (simp_all add: loop_eval)
  from page_index_counts_changes[of id 3 "[''A'', ''A'', ''B'', ''C'', ''D'']"]
  have "page (loop_state ?r) = int (count_changes (map id (take (loop_passes ?r) [''A'', ''A'', ''B'', ''C'', ''D''])))"
    by (simp add: Let_def)
  with e show ?thesis by simp
qed

text \<open>
  C2. When the fingerprint of the frame just captured equals \<open>last_hash\<close>, the pass
  deletes that frame from the folder, takes the increment of \<open>page\<close> back and adds one to
  \<open>same_count\<close>, and it leaves the loop by \<open>break\<close> exactly when the counter has
  reached 5. A pass on a new fingerprint sets the counter back to 0 and goes on, a pass whose
  capture fails leaves the counter and \<open>last_hash\<close> alone and goes on, so no other pass
  breaks. For a run from the initial state: when it ends \<open>Complete\<close> the counter is exactly
  5 and the fingerprints captured end with exactly five duplicates in a row; and unless the
  run is cancelled, the counter is the number of duplicates in a row that the captured
  fingerprints end with, and the run ends \<open>Complete\<close> exactly when that number is 5.
\<close>

theorem duplicate_rolls_back_and_completes:
  "(Some (h img) = last_hash s \<longrightarrow>
      (case loop_body h s (Some img) of (c, s') \<Rightarrow>
         folder s' = AList.delete (page s + 1) (AList.update (page s + 1) img (folder s)) \<and>
         page s' = (page s + 1) - 1 \<and>
         same_count s' = same_count s + 1 \<and>
         (c = Break \<longleftrightarrow> 5 \<le> same_count s'))) \<and>
   (Some (h img) \<noteq> last_hash s \<longrightarrow>
      (case loop_body h s (Some img) of (c, s') \<Rightarrow>
         c = Continue \<and> same_count s' = 0 \<and> last_hash s' = Some (h img))) \<and>
   (case loop_body h s None of (c, s') \<Rightarrow>
      c = Continue \<and> same_count s' = same_count s \<and> last_hash s' = last_hash s) \<and>
   (fst (loop_body h s shot) = Break \<longrightarrow> (\<exists>img. shot = Some img \<and> Some (h img) = last_hash s)) \<and>
   (let r = capture_loop h max_pages initial_state ticks;
        fps = fingerprints h (take (loop_passes r) ticks)
    in (loop_ending r = Complete \<longrightarrow>
          same_count (loop_state r) = 5 \<and> trailing_duplicates fps = 5) \<and>
       (loop_ending r \<noteq> Cancelled \<longrightarrow>
          same_count (loop_state r) = int (trailing_duplicates fps) \<and>
          (loop_ending r = Complete \<longleftrightarrow> trailing_duplicates fps = 5)))"
proof -
  have a: "Some (h img) = last_hash s \<longrightarrow>
      (case loop_body h s (Some img) of (c, s') \<Rightarrow>
         folder s' = AList.delete (page s + 1) (AList.update (page s + 1) img (folder s)) \<and>
         page s' = (page s + 1) - 1 \<and>
         same_count s' = same_count s + 1 \<and>
         (c = Break \<longleftrightarrow> 5 \<le> same_count s'))"
    by (simp add: loop_body_def Let_def)
  have a2: "Some (h img) \<noteq> last_hash s \<longrightarrow>
      (case loop_body h s (Some img) of (c, s') \<Rightarrow>
         c = Continue \<and> same_count s' = 0 \<and> last_hash s' = Some (h img))"
    by (simp add: loop_body_new)
  have a3: "case loop_body h s None of (c, s') \<Rightarrow>
      c = Continue \<and> same_count s' = same_count s \<and> last_hash s' = last_hash s"
    by (simp add: loop_body_failed)
  have b: "fst (loop_body h s shot) = Break \<longrightarrow> (\<exists>img. shot = Some img \<and> Some (h img) = last_hash s)"
    by (cases shot) (auto simp: loop_body_def Let_def split: if_splits)
  obtain e n t where r: "capture_loop h max_pages initial_state ticks = (e, n, t)"
    by (metis prod_cases3)
  from loop_same_count[OF r] have five: "e = Complete \<longleftrightarrow> same_count t = 5"
    by (auto simp: initial_state_def split: if_splits)
  from loop_same_count_dup_run[OF r]
  have tr: "same_count t = int (trailing_duplicates (fingerprints h (take n ticks)))"
    by (simp add: initial_state_def dup_run_trailing)
  from five tr have c: "let r = capture_loop h max_pages initial_state ticks;
        fps = fingerprints h (take (loop_passes r) ticks)
    in (loop_ending r = Complete \<longrightarrow>
          same_count (loop_state r) = 5 \<and> trailing_duplicates fps = 5) \<and>
       (loop_ending r \<noteq> Cancelled \<longrightarrow>
          same_count (loop_state r) = int (trailing_duplicates fps) \<and>
          (loop_ending r = Complete \<longleftrightarrow> trailing_duplicates fps = 5))"
    by (simp add: r Let_def loop_ending_def loop_state_def loop_passes_def)
  from a a2 a3 b c show ?thesis by blast
qed

theorem duplicate_rolls_back_and_completes_witness:
  "loop_ending (capture_loop id 2000 initial_state
      [Capture (Some ''A''), Capture (Some ''B''), Capture None, Capture (Some ''B''),
       Capture (Some ''B''), Capture (Some ''B''), Capture (Some ''B''), Capture (Some ''B''),
       Capture (Some ''C'')]) = Complete \<and>
   loop_passes (capture_loop id 2000 initial_state
      [Capture (Some ''A''), Capture (Some ''B''), Capture None, Capture (Some ''B''),
       Capture (Some ''B''), Capture (Some ''B''), Capture (Some ''B''), Capture (Some ''B''),
       Capture (Some ''C'')]) = 8 \<and>
   trailing_duplicates [''A'', ''B'', ''B'', ''B'', ''B'', ''B'', ''B''] = 5"
proof -
  let ?ticks = "[Capture (Some ''A''), Capture (Some ''B''), Capture None, Capture (Some ''B''),
       Capture (Some ''B''), Capture (Some ''B''), Capture (Some ''B''), Capture (Some ''B''),
       Capture (Some ''C'')]"
  let ?r = "capture_loop id 2000 (initial_state :: (string, string) capture_state) ?ticks"
  have e: "loop_ending ?r = Complete" "loop_passes ?r = 8"
    by (simp_all add: loop_eval)
  from duplicate_rolls_back_and_completes[of id "''A''" initial_state None 2000 ?ticks]
  have "loop_ending ?r = Complete \<longrightarrow>
          trailing_duplicates (fingerprints id (take (loop_passes ?r) ?ticks)) = 5"
    by (simp add: Let_def)
  with e show ?thesis by simp
qed

text \<open>
  C3. The claim is that \<open>page\<close> equals the number of frames in the folder at every
  iteration boundary, failed captures included. The code at the input of one failed
  capture followed by one successful capture: \<open>page\<close> is 2 and the folder holds one
  frame, stored under index 2. (Without a failed capture the equality holds, see
  \<open>page_is_frame_count_without_failure\<close>.)
\<close>

theorem failed_capture_breaks_page_count:
  "capture_loop id default_max_pages initial_state [Capture None, Capture (Some ''A'')]
     = (Exhausted, 2, \<lparr>last_hash = Some ''A'', same_count = 0, page = 2, failed_turns = 0,
                       folder = [(2, ''A'')]\<rparr>)"
  by (simp add: loop_eval default_max_pages_def)

text \<open>
  C4. The claim is that a failed capture reuses the same tentative page index and never
  ends the run. The code: a pass whose capture fails changes nothing but \<open>page\<close>, which
  it leaves incremented; with a ceiling of 1 a single failed capture ends the loop with
  no frame captured.
\<close>

theorem failed_capture_advances_page:
  "loop_body h s None = (Continue, s\<lparr>page := page s + 1\<rparr>) \<and>
   capture_loop h 1 initial_state [Capture None] = (Ceiling, 1, initial_state\<lparr>page := 1\<rparr>)"
  by (simp add: loop_eval)



text \<open>
  C6. The claim is that the fingerprints A, B, B, B, B, B end the loop \<open>Complete\<close> with
  one frame retained and \<open>page\<close> equal to 1. The code at that input: the loop is still
  running, with two frames retained, \<open>page\<close> equal to 2 and four duplicates counted.
\<close>

theorem ABBBBB_counterexample:
  "capture_loop id default_max_pages initial_state
       (map (\<lambda>img. Capture (Some img)) [''A'', ''B'', ''B'', ''B'', ''B'', ''B''])
     = (Exhausted, 6, \<lparr>last_hash = Some ''B'', same_count = 4, page = 2, failed_turns = 4,
          folder = [(1, ''A''), (2, ''B'')]\<rparr>)"
  by (simp add: loop_eval default_max_pages_def)

text \<open>
  C6, as amended. With A and B of different fingerprints and a ceiling above 2, the
  fingerprints A, B, B, B, B, B leave the loop running with the frames of A and B retained,
  \<open>page\<close> equal to 2 and \<open>same_count\<close> equal to 4; one more B ends it \<open>Complete\<close> with
  the same two frames and \<open>page\<close> equal to 2.
\<close>

theorem ABBBBB_then_one_more:
  "h a \<noteq> h b \<Longrightarrow> 2 < max_pages \<Longrightarrow>
   capture_loop h max_pages initial_state (map (\<lambda>img. Capture (Some img)) [a, b, b, b, b, b])
     = (Exhausted, 6, \<lparr>last_hash = Some (h b), same_count = 4, page = 2, failed_turns = 4,
          folder = [(1, a), (2, b)]\<rparr>) \<and>
   capture_loop h max_pages initial_state (map (\<lambda>img. Capture (Some img)) [a, b, b, b, b, b, b])
     = (Complete, 7, \<lparr>last_hash = Some (h b), same_count = 5, page = 2, failed_turns = 4,
          folder = [(1, a), (2, b)]\<rparr>)"
  by (simp add: loop_eval)

theorem ABBBBB_then_one_more_witness:
  "id ''A'' \<noteq> id ''B'' \<and> (2::int) < 2000 \<and>
   loop_ending (capture_loop id 2000 initial_state
       (map (\<lambda>img. Capture (Some img)) [''A'', ''B'', ''B'', ''B'', ''B'', ''B'', ''B''])) = Complete"
proof -
  have h: "id ''A'' \<noteq> id ''B''" "(2::int) < 2000" by simp_all
  from ABBBBB_then_one_more[of id "''A''" "''B''" 2000, OF h] show ?thesis by (simp add: loop_ending_def)
qed

text \<open>
  C10. For every infinite sequence \<open>ev\<close> of ticks, the loop started in the initial state
  is left within its first \<open>5 * max_pages + 5\<close> ticks, so after at most that many passes.
  Every pass either advances \<open>page\<close> for good or leaves it and adds one to \<open>same_count\<close>.
\<close>

theorem loop_terminates_within_bound:
  "(let r = capture_loop h max_pages initial_state (map ev [0..<5 * nat max_pages + 5])
    in loop_ending r \<noteq> Exhausted \<and> loop_passes r \<le> 5 * nat max_pages + 5) \<and>
   (let s' = snd (loop_body h s shot)
    in page s' = page s + 1 \<or> (page s' = page s \<and> same_count s' = same_count s + 1))"
proof -
  obtain e n t where
    r: "capture_loop h max_pages initial_state (map ev [0..<5 * nat max_pages + 5]) = (e, n, t)"
    by (metis prod_cases3)
  from loop_bounded[OF r] have "e \<noteq> Exhausted" "n \<le> 5 * nat max_pages + 5"
    by (simp_all add: initial_state_def remaining_def)
  then have "let r = capture_loop h max_pages initial_state (map ev [0..<5 * nat max_pages + 5])
    in loop_ending r \<noteq> Exhausted \<and> loop_passes r \<le> 5 * nat max_pages + 5"
    by (simp add: r loop_ending_def loop_passes_def)
  moreover have "let s' = snd (loop_body h s shot)
    in page s' = page s + 1 \<or> (page s' = page s \<and> same_count s' = same_count s + 1)"
    by (cases shot) (simp_all add: loop_body_def Let_def)
  ultimately show ?thesis by blast
qed

theorem loop_terminates_within_bound_witness:
  "loop_ending (capture_loop id 1 initial_state
      (map (\<lambda>i. if i < 4 then Capture None else Capture (Some ''A'')) [0..<5 * nat 1 + 5])) = Ceiling"
proof -
  let ?r = "capture_loop id 1 (initial_state :: (string, string) capture_state)
      (map (\<lambda>i. if i < 4 then Capture None else Capture (Some ''A'')) [0..<5 * nat 1 + 5])"
  from loop_terminates_within_bound[of id 1 "\<lambda>i. if i < 4 then Capture None else Capture (Some ''A'')"]
  have "loop_ending ?r \<noteq> Exhausted" by (simp add: Let_def)
  moreover have "loop_ending ?r \<in> {Ceiling, Exhausted}"
    by (simp add: loop_eval upt_conv_Cons)
  ultimately show ?thesis by auto
qed

section \<open>Properties of \<open>trim_whitespace\<close>\<close>

subsection \<open>First and last element of a filtered range\<close>

lemma filter_upt_hd_last:
  "filter P [0..<n] \<noteq> [] \<Longrightarrow>
     hd (filter P [0..<n]) < n \<and> P (hd (filter P [0..<n])) \<and>
     (\<forall>x<hd (filter P [0..<n]). \<not> P x) \<and>
     last (filter P [0..<n]) < n \<and> P (last (filter P [0..<n])) \<and>
     (\<forall>x. last (filter P [0..<n]) < x \<and> x < n \<longrightarrow> \<not> P x)"
proof (induction n)
  case 0
  then show ?case by simp
next
  case (Suc n)
  define xs where "xs = filter P [0..<n]"
  have step: "filter P [0..<Suc n] = xs @ (if P n then [n] else [])"
    by (simp add: xs_def)
  show ?case
  proof (cases "xs = []")
    case True
    then have none: "\<forall>x<n. \<not> P x"
      unfolding xs_def filter_empty_conv by simp
    from Suc.prems True have pn: "P n"
      unfolding step by (simp split: if_splits)
    have eq: "filter P [0..<Suc n] = [n]"
      unfolding step using True pn by simp
    show ?thesis unfolding eq using pn none by simp
  next
    case False
    from Suc.IH[unfolded xs_def[symmetric], OF False]
    have ih: "hd xs < n" "P (hd xs)" "\<forall>x<hd xs. \<not> P x"
      "last xs < n" "P (last xs)" "\<forall>x. last xs < x \<and> x < n \<longrightarrow> \<not> P x"
      by blast+
    show ?thesis
    proof (cases "P n")
      case True
      have eq: "filter P [0..<Suc n] = xs @ [n]" unfolding step using True by simp
      have "hd (xs @ [n]) = hd xs" using False by simp
      moreover have "last (xs @ [n]) = n" by simp
      ultimately show ?thesis unfolding eq using ih True by simp
    next
      case nP: False
      have eq: "filter P [0..<Suc n] = xs" unfolding step using nP by simp
      have "\<forall>x. last xs < x \<and> x < Suc n \<longrightarrow> \<not> P x"
        using ih(6) nP by (metis less_antisym)
      then show ?thesis unfolding eq using ih by simp
    qed
  qed
qed

lemma filter_upt_facts:
  assumes ne: "filter P [0..<n] \<noteq> []"
  shows hd_filter_lt: "hd (filter P [0..<n]) < n"
    and hd_filter_P: "P (hd (filter P [0..<n]))"
    and hd_filter_min: "\<And>x. P x \<Longrightarrow> hd (filter P [0..<n]) \<le> x"
    and last_filter_lt: "last (filter P [0..<n]) < n"
    and last_filter_P: "P (last (filter P [0..<n]))"
    and last_filter_max: "\<And>x. x < n \<Longrightarrow> P x \<Longrightarrow> x \<le> last (filter P [0..<n])"
proof -
  note f = filter_upt_hd_last[OF ne]
  from f show "hd (filter P [0..<n]) < n" by (rule conjunct1)
  from f show "P (hd (filter P [0..<n]))" by blast
  from f show "last (filter P [0..<n]) < n" by blast
  from f show "P (last (filter P [0..<n]))" by blast
  from f have a: "\<forall>x<hd (filter P [0..<n]). \<not> P x" by blast
  from f have b: "\<forall>x. last (filter P [0..<n]) < x \<and> x < n \<longrightarrow> \<not> P x" by blast
  { fix x assume "P x"
    with a have "\<not> x < hd (filter P [0..<n])" by blast
    then show "hd (filter P [0..<n]) \<le> x" by simp }
  { fix x assume "x < n" "P x"
    with b have "\<not> last (filter P [0..<n]) < x" by blast
    then show "x \<le> last (filter P [0..<n])" by simp }
qed

lemma hd_filter_upt_eq:
  assumes "a < n" "P a" "\<forall>x<a. \<not> P x"
  shows "hd (filter P [0..<n]) = a"
proof -
  from assms(1,2) have "a \<in> set (filter P [0..<n])" by simp
  then have ne: "filter P [0..<n] \<noteq> []" by (metis empty_iff empty_set)
  have "hd (filter P [0..<n]) \<le> a" using hd_filter_min[OF ne assms(2)] .
  moreover have "\<not> hd (filter P [0..<n]) < a"
    using assms(3) hd_filter_P[OF ne] by blast
  ultimately show ?thesis by simp
qed

lemma last_filter_upt_eq:
  assumes "a < n" "P a" "\<forall>x. a < x \<and> x < n \<longrightarrow> \<not> P x"
  shows "last (filter P [0..<n]) = a"
proof -
  from assms(1,2) have "a \<in> set (filter P [0..<n])" by simp
  then have ne: "filter P [0..<n] \<noteq> []" by (metis empty_iff empty_set)
  have "a \<le> last (filter P [0..<n])" using last_filter_max[OF ne assms(1,2)] .
  moreover have "\<not> a < last (filter P [0..<n])"
    using assms(3) last_filter_P[OF ne] last_filter_lt[OF ne] by blast
  ultimately show ?thesis by simp
qed

subsection \<open>\<open>getbbox\<close> computes the tight bounding box\<close>

lemma bex_upt: "(\<exists>y\<in>set [0..<n]. Q y) \<longleftrightarrow> (\<exists>y<n. Q y)"
  by auto

lemma getbbox_tight:
  assumes "getbbox g = Some (b0, b1, b2, b3)"
  shows "tight_box g b0 b1 b2 b3"
proof -
  define P where "P = (\<lambda>x. \<exists>y\<in>set [0..<height g]. pixel g x y \<noteq> 0)"
  define Q where "Q = (\<lambda>y. \<exists>x\<in>set [0..<width g]. pixel g x y \<noteq> 0)"
  define cols where "cols = filter P [0..<width g]"
  define rows where "rows = filter Q [0..<height g]"
  have gb: "getbbox g = (if cols = [] then None
                         else Some (hd cols, hd rows, last cols + 1, last rows + 1))"
    by (simp add: getbbox_def Let_def cols_def rows_def P_def Q_def)
  from assms have ne: "cols \<noteq> []" unfolding gb by (simp split: if_splits)
  from assms ne have b: "b0 = hd cols" "b1 = hd rows" "b2 = last cols + 1" "b3 = last rows + 1"
    unfolding gb by simp_all
  have Pd: "P x \<longleftrightarrow> (\<exists>y<height g. pixel g x y \<noteq> 0)" for x
    unfolding P_def by (rule bex_upt)
  have Qd: "Q y \<longleftrightarrow> (\<exists>x<width g. pixel g x y \<noteq> 0)" for y
    unfolding Q_def by (rule bex_upt)
  note c = ne[unfolded cols_def]
  have c1: "hd cols < width g" and c2: "P (hd cols)"
    and c4: "last cols < width g" and c5: "P (last cols)"
    unfolding cols_def
    by (rule hd_filter_lt[OF c], rule hd_filter_P[OF c], rule last_filter_lt[OF c],
        rule last_filter_P[OF c])
  from c2 obtain y0 where y0: "y0 < height g" "pixel g (hd cols) y0 \<noteq> 0"
    unfolding Pd by blast
  from y0 c1 have "Q y0" unfolding Qd by blast
  with y0(1) have "y0 \<in> set (filter Q [0..<height g])" by simp
  then have r: "filter Q [0..<height g] \<noteq> []" by (metis empty_iff empty_set)
  have r1: "hd rows < height g" and r2: "Q (hd rows)"
    and r4: "last rows < height g" and r5: "Q (last rows)"
    unfolding rows_def
    by (rule hd_filter_lt[OF r], rule hd_filter_P[OF r], rule last_filter_lt[OF r],
        rule last_filter_P[OF r])
  have inside: "hd cols \<le> x \<and> x \<le> last cols \<and> hd rows \<le> y \<and> y \<le> last rows"
    if xy: "x < width g" "y < height g" "pixel g x y \<noteq> 0" for x y
  proof -
    from xy have px: "P x" unfolding Pd by blast
    from xy have qy: "Q y" unfolding Qd by blast
    have "hd cols \<le> x" unfolding cols_def by (rule hd_filter_min[OF c px])
    moreover have "x \<le> last cols" unfolding cols_def by (rule last_filter_max[OF c xy(1) px])
    moreover have "hd rows \<le> y" unfolding rows_def by (rule hd_filter_min[OF r qy])
    moreover have "y \<le> last rows" unfolding rows_def by (rule last_filter_max[OF r xy(2) qy])
    ultimately show ?thesis by blast
  qed
  have hl: "hd cols \<le> last cols"
    using hd_filter_min[OF c c5[unfolded cols_def]] unfolding cols_def .
  have hl': "hd rows \<le> last rows"
    using hd_filter_min[OF r r5[unfolded rows_def]] unfolding rows_def .
  have t1: "b0 < b2" "b2 \<le> width g" "b1 < b3" "b3 \<le> height g"
    using hl hl' c4 r4 unfolding b by simp_all
  have t5: "\<forall>x y. x < width g \<longrightarrow> y < height g \<longrightarrow> pixel g x y \<noteq> 0 \<longrightarrow>
        b0 \<le> x \<and> x < b2 \<and> b1 \<le> y \<and> y < b3"
  proof (intro allI impI)
    fix x y assume "x < width g" "y < height g" "pixel g x y \<noteq> 0"
    from inside[OF this] show "b0 \<le> x \<and> x < b2 \<and> b1 \<le> y \<and> y < b3"
      unfolding b by simp
  qed
  have t6: "\<exists>y<height g. pixel g b0 y \<noteq> 0" using c2 unfolding Pd b .
  have t7: "\<exists>y<height g. pixel g (b2 - 1) y \<noteq> 0" using c5 unfolding Pd b by simp
  have t8: "\<exists>x<width g. pixel g x b1 \<noteq> 0" using r2 unfolding Qd b .
  have t9: "\<exists>x<width g. pixel g x (b3 - 1) \<noteq> 0" using r5 unfolding Qd b by simp
  from t1 t5 t6 t7 t8 t9 show ?thesis unfolding tight_box_def by blast
qed

lemma getbbox_eqI:
  assumes "tight_box g b0 b1 b2 b3"
  shows "getbbox g = Some (b0, b1, b2, b3)"
proof -
  define P where "P = (\<lambda>x. \<exists>y\<in>set [0..<height g]. pixel g x y \<noteq> 0)"
  define Q where "Q = (\<lambda>y. \<exists>x\<in>set [0..<width g]. pixel g x y \<noteq> 0)"
  have gb: "getbbox g = (if filter P [0..<width g] = [] then None
      else Some (hd (filter P [0..<width g]), hd (filter Q [0..<height g]),
                 last (filter P [0..<width g]) + 1, last (filter Q [0..<height g]) + 1))"
    by (simp add: getbbox_def Let_def P_def Q_def)
  have Pd: "P x \<longleftrightarrow> (\<exists>y<height g. pixel g x y \<noteq> 0)" for x
    unfolding P_def by (rule bex_upt)
  have Qd: "Q y \<longleftrightarrow> (\<exists>x<width g. pixel g x y \<noteq> 0)" for y
    unfolding Q_def by (rule bex_upt)
  from assms have t:
    "b0 < b2" "b2 \<le> width g" "b1 < b3" "b3 \<le> height g"
    "P b0" "P (b2 - 1)" "Q b1" "Q (b3 - 1)"
    unfolding tight_box_def Pd Qd by blast+
  from assms have t5: "b0 \<le> x \<and> x < b2 \<and> b1 \<le> y \<and> y < b3"
    if "x < width g" "y < height g" "pixel g x y \<noteq> 0" for x y
    using that unfolding tight_box_def by blast
  have Pin: "b0 \<le> x \<and> x < b2" if "x < width g" "P x" for x
  proof -
    from that(2) obtain y where "y < height g" "pixel g x y \<noteq> 0" unfolding Pd by blast
    from t5[OF that(1) this] show ?thesis by blast
  qed
  have Qin: "b1 \<le> y \<and> y < b3" if "y < height g" "Q y" for y
  proof -
    from that(2) obtain x where "x < width g" "pixel g x y \<noteq> 0" unfolding Qd by blast
    from t5[OF this(1) that(1) this(2)] show ?thesis by blast
  qed
  have w0: "b0 < width g" and w2: "b2 - 1 < width g" using t(1,2) by simp_all
  have h1: "b1 < height g" and h3: "b3 - 1 < height g" using t(3,4) by simp_all
  have e0: "hd (filter P [0..<width g]) = b0"
  proof (rule hd_filter_upt_eq[where P=P, OF w0 t(5)], intro allI impI notI)
    fix x assume "x < b0" "P x"
    with Pin[of x] w0 show False by simp
  qed
  have e1: "hd (filter Q [0..<height g]) = b1"
  proof (rule hd_filter_upt_eq[where P=Q, OF h1 t(7)], intro allI impI notI)
    fix y assume "y < b1" "Q y"
    with Qin[of y] h1 show False by simp
  qed
  have e2: "last (filter P [0..<width g]) = b2 - 1"
  proof (rule last_filter_upt_eq[where P=P, OF w2 t(6)], intro allI impI notI)
    fix x assume "b2 - 1 < x \<and> x < width g" "P x"
    with Pin[of x] show False by auto
  qed
  have e3: "last (filter Q [0..<height g]) = b3 - 1"
  proof (rule last_filter_upt_eq[where P=Q, OF h3 t(8)], intro allI impI notI)
    fix y assume "b3 - 1 < y \<and> y < height g" "Q y"
    with Qin[of y] show False by auto
  qed
  from w0 t(5) have "b0 \<in> set (filter P [0..<width g])" by simp
  then have ne: "filter P [0..<width g] \<noteq> []" by (metis empty_iff empty_set)
  show ?thesis unfolding gb e0 e1 e2 e3 using ne t(1,3) by simp
qed

subsection \<open>Trimming shifts the bounding box\<close>

lemma max_margin: "max 0 (int b - 10) = int (b - 10)"
  by (cases "10 \<le> b") (simp_all add: of_nat_diff)

lemma min_margin: "min (int w) (int b + 10) = int (min w (b + 10))"
  by (simp add: min_def)

lemma nat_int_add: "nat (int x + int y) = x + y"
  by (simp add: nat_add_distrib)

lemma nat_int_diff: "nat (int x - int y) = x - y"
  by (simp add: nat_diff_distrib')

lemma trim_whitespace_None:
  "getbbox (convert_L lum img) = None \<Longrightarrow> trim_whitespace lum img = img"
  by (simp add: trim_whitespace_def)

lemma trim_whitespace_Some:
  assumes "getbbox (convert_L lum img) = Some (b0, b1, b2, b3)"
  shows "trim_whitespace lum img =
     \<lparr>width = min (width img) (b2 + 10) - (b0 - 10),
      height = min (height img) (b3 + 10) - (b1 - 10),
      pixel = (\<lambda>x y. pixel img (x + (b0 - 10)) (y + (b1 - 10)))\<rparr>"
  using assms
  by (simp add: trim_whitespace_def crop_def max_margin min_margin nat_int_add nat_int_diff
      del: of_nat_add of_nat_diff of_nat_min)

lemma tight_box_shift:
  assumes t: "tight_box (convert_L lum img) b0 b1 b2 b3"
    and x1: "x1 = b0 - 10" and y1: "y1 = b1 - 10"
    and w': "w' = min (width img) (b2 + 10) - x1"
    and h': "h' = min (height img) (b3 + 10) - y1"
  shows "tight_box (convert_L lum \<lparr>width = w', height = h',
            pixel = (\<lambda>x y. pixel img (x + x1) (y + y1))\<rparr>)
          (b0 - x1) (b1 - y1) (b2 - x1) (b3 - y1)"
proof -
  have cw: "width (convert_L lum img) = width img" "height (convert_L lum img) = height img"
    and cp: "pixel (convert_L lum img) x y = lum (pixel img x y)" for x y
    by (simp_all add: convert_L_def)
  from t have f: "b0 < b2" "b2 \<le> width img" "b1 < b3" "b3 \<le> height img"
    unfolding tight_box_def cw by blast+
  from t have f5: "b0 \<le> x \<and> x < b2 \<and> b1 \<le> y \<and> y < b3"
    if "x < width img" "y < height img" "lum (pixel img x y) \<noteq> 0" for x y
    using that unfolding tight_box_def cw cp by blast
  from t obtain ya where ya: "ya < height img" "lum (pixel img b0 ya) \<noteq> 0"
    unfolding tight_box_def cw cp by blast
  from t obtain yb where yb: "yb < height img" "lum (pixel img (b2 - 1) yb) \<noteq> 0"
    unfolding tight_box_def cw cp by blast
  from t obtain xa where xa: "xa < width img" "lum (pixel img xa b1) \<noteq> 0"
    unfolding tight_box_def cw cp by blast
  from t obtain xb where xb: "xb < width img" "lum (pixel img xb (b3 - 1)) \<noteq> 0"
    unfolding tight_box_def cw cp by blast
  have x1le: "x1 \<le> b0" and y1le: "y1 \<le> b1" by (simp_all add: x1 y1)
  have w'': "b2 - x1 \<le> w'" using f(1,2) x1le by (simp add: w')
  have h'': "b3 - y1 \<le> h'" using f(3,4) y1le by (simp add: h')
  have wlt: "x + x1 < width img" if "x < w'" for x using that by (simp add: w')
  have hlt: "y + y1 < height img" if "y < h'" for y using that by (simp add: h')
  have w0: "b0 < width img" and w2: "b2 - 1 < width img" using f(1,2) by simp_all
  have h1: "b1 < height img" and h3: "b3 - 1 < height img" using f(3,4) by simp_all
  from f5[OF w0 ya] have ya': "b1 \<le> ya" "ya < b3" by simp_all
  from f5[OF w2 yb] have yb': "b1 \<le> yb" "yb < b3" by simp_all
  from f5[OF xa(1) h1 xa(2)] have xa': "b0 \<le> xa" "xa < b2" by simp_all
  from f5[OF xb(1) h3 xb(2)] have xb': "b0 \<le> xb" "xb < b2" by simp_all
  let ?g' = "convert_L lum \<lparr>width = w', height = h',
            pixel = (\<lambda>x y. pixel img (x + x1) (y + y1))\<rparr>"
  have gw: "width ?g' = w'" "height ?g' = h'"
    and gp: "pixel ?g' x y = lum (pixel img (x + x1) (y + y1))" for x y
    by (simp_all add: convert_L_def)
  have c1: "b0 - x1 < b2 - x1" using f(1) x1le by simp
  have c3: "b1 - y1 < b3 - y1" using f(3) y1le by simp
  have c5: "\<forall>x y. x < w' \<longrightarrow> y < h' \<longrightarrow> lum (pixel img (x + x1) (y + y1)) \<noteq> 0 \<longrightarrow>
      b0 - x1 \<le> x \<and> x < b2 - x1 \<and> b1 - y1 \<le> y \<and> y < b3 - y1"
  proof (intro allI impI)
    fix x y assume a: "x < w'" "y < h'" "lum (pixel img (x + x1) (y + y1)) \<noteq> 0"
    from f5[OF wlt[OF a(1)] hlt[OF a(2)] a(3)]
    have "b0 \<le> x + x1" "x + x1 < b2" "b1 \<le> y + y1" "y + y1 < b3" by simp_all
    then show "b0 - x1 \<le> x \<and> x < b2 - x1 \<and> b1 - y1 \<le> y \<and> y < b3 - y1" by arith
  qed
  have s0: "b0 - x1 + x1 = b0" "b1 - y1 + y1 = b1" using x1le y1le by simp_all
  have s2: "b2 - x1 - 1 + x1 = b2 - 1" using f(1) x1le by simp
  have s3: "b3 - y1 - 1 + y1 = b3 - 1" using f(3) y1le by simp
  have c6: "\<exists>y<h'. lum (pixel img (b0 - x1 + x1) (y + y1)) \<noteq> 0"
  proof (intro exI[of _ "ya - y1"] conjI)
    show "ya - y1 < h'" using ya' y1le h'' by simp
    have "ya - y1 + y1 = ya" using ya'(1) y1le by simp
    then show "lum (pixel img (b0 - x1 + x1) (ya - y1 + y1)) \<noteq> 0" using ya(2) s0 by simp
  qed
  have c7: "\<exists>y<h'. lum (pixel img (b2 - x1 - 1 + x1) (y + y1)) \<noteq> 0"
  proof (intro exI[of _ "yb - y1"] conjI)
    show "yb - y1 < h'" using yb' y1le h'' by simp
    have "yb - y1 + y1 = yb" using yb'(1) y1le by simp
    then show "lum (pixel img (b2 - x1 - 1 + x1) (yb - y1 + y1)) \<noteq> 0"
      using yb(2) unfolding s2 by simp
  qed
  have c8: "\<exists>x<w'. lum (pixel img (x + x1) (b1 - y1 + y1)) \<noteq> 0"
  proof (intro exI[of _ "xa - x1"] conjI)
    show "xa - x1 < w'" using xa' x1le w'' by simp
    have "xa - x1 + x1 = xa" using xa'(1) x1le by simp
    then show "lum (pixel img (xa - x1 + x1) (b1 - y1 + y1)) \<noteq> 0" using xa(2) s0 by simp
  qed
  have c9: "\<exists>x<w'. lum (pixel img (x + x1) (b3 - y1 - 1 + y1)) \<noteq> 0"
  proof (intro exI[of _ "xb - x1"] conjI)
    show "xb - x1 < w'" using xb' x1le w'' by simp
    have "xb - x1 + x1 = xb" using xb'(1) x1le by simp
    then show "lum (pixel img (xb - x1 + x1) (b3 - y1 - 1 + y1)) \<noteq> 0"
      using xb(2) unfolding s3 by simp
  qed
  show ?thesis
    unfolding tight_box_def gw gp
    using c1 w'' c3 h'' c5 c6 c7 c8 c9 by blast
qed

text \<open>
  C9. Trimming is idempotent: for every image, and whatever the conversion to grey levels,
  trimming an image that has been trimmed returns it unchanged, so two passes give the same
  image as one.
\<close>

theorem trim_whitespace_idempotent:
  "trim_whitespace lum (trim_whitespace lum img) = trim_whitespace lum img"
proof (cases "getbbox (convert_L lum img)")
  case None
  then have "trim_whitespace lum img = img" by (rule trim_whitespace_None)
  then show ?thesis by (simp only:)
next
  case (Some box)
  obtain b0 b1 b2 b3 where box: "box = (b0, b1, b2, b3)" by (metis prod_cases4)
  define x1 y1 where "x1 = b0 - 10" and "y1 = b1 - 10"
  define w' h' where "w' = min (width img) (b2 + 10) - x1"
    and "h' = min (height img) (b3 + 10) - y1"
  define img' where "img' = \<lparr>width = w', height = h',
            pixel = (\<lambda>x y. pixel img (x + x1) (y + y1))\<rparr>"
  from Some box have g: "getbbox (convert_L lum img) = Some (b0, b1, b2, b3)" by simp
  have first: "trim_whitespace lum img = img'"
    unfolding trim_whitespace_Some[OF g] img'_def w'_def h'_def x1_def y1_def ..
  from getbbox_tight[OF g] have t: "tight_box (convert_L lum img) b0 b1 b2 b3" .
  from tight_box_shift[OF t x1_def y1_def w'_def h'_def]
  have t': "tight_box (convert_L lum img') (b0 - x1) (b1 - y1) (b2 - x1) (b3 - y1)"
    unfolding img'_def .
  from getbbox_eqI[OF t']
  have g': "getbbox (convert_L lum img') = Some (b0 - x1, b1 - y1, b2 - x1, b3 - y1)" .
  from t have f: "b0 < b2" "b2 \<le> width img" "b1 < b3" "b3 \<le> height img"
    unfolding tight_box_def convert_L_def by simp_all
  have wi: "width img' = w'" "height img' = h'"
    and pi: "pixel img' = (\<lambda>x y. pixel img (x + x1) (y + y1))"
    by (simp_all add: img'_def)
  have z: "b0 - x1 - 10 = 0" "b1 - y1 - 10 = 0" by (simp_all add: x1_def y1_def)
  have "w' \<le> b2 - x1 + 10" "h' \<le> b3 - y1 + 10"
    using f by (simp_all add: w'_def h'_def x1_def y1_def)
  then have m: "min w' (b2 - x1 + 10) = w'" "min h' (b3 - y1 + 10) = h'" by simp_all
  have "trim_whitespace lum img' =
     \<lparr>width = min (width img') (b2 - x1 + 10) - (b0 - x1 - 10),
      height = min (height img') (b3 - y1 + 10) - (b1 - y1 - 10),
      pixel = (\<lambda>x y. pixel img' (x + (b0 - x1 - 10)) (y + (b1 - y1 - 10)))\<rparr>"
    by (rule trim_whitespace_Some[OF g'])
  also have "\<dots> = \<lparr>width = w', height = h', pixel = (\<lambda>x y. pixel img' x y)\<rparr>"
    unfolding wi z m by simp
  also have "\<dots> = img'" by (simp add: img'_def)
  finally show ?thesis unfolding first .
qed

theorem trim_whitespace_idempotent_witness:
  "width (trim_whitespace id
      \<lparr>width = 30, height = 1, pixel = (\<lambda>x y. if x = 15 then 7 else (0::nat))\<rparr>) = 21 \<and>
   trim_whitespace id (trim_whitespace id
      \<lparr>width = 30, height = 1, pixel = (\<lambda>x y. if x = 15 then 7 else (0::nat))\<rparr>)
     = trim_whitespace id
      \<lparr>width = 30, height = 1, pixel = (\<lambda>x y. if x = 15 then 7 else (0::nat))\<rparr>"
proof -
  let ?img = "\<lparr>width = 30, height = 1, pixel = (\<lambda>x y. if x = 15 then 7 else (0::nat))\<rparr>"
  have "tight_box (convert_L id ?img) 15 0 16 1"
    unfolding tight_box_def by (simp add: convert_L_def)
  then have "getbbox (convert_L id ?img) = Some (15, 0, 16, 1)" by (rule getbbox_eqI)
  then have "width (trim_whitespace id ?img) = 21"
    by (simp add: trim_whitespace_Some)
  with trim_whitespace_idempotent[of id ?img] show ?thesis by simp
qed

section \<open>Properties of the run after the loop\<close>








subsection \<open>Assembly failures\<close>

lemma open_all_never_raising: "open_all (\<lambda>f. Some (to_rgb f)) fs = Some (map to_rgb fs)"
  by (induction fs) simp_all

lemma images_to_pdf_exn_never_raising:
  "images_to_pdf_exn (\<lambda>f. Some (to_rgb f)) (\<lambda>pages. True) files = Inr (images_to_pdf to_rgb files)"
  by (simp add: images_to_pdf_exn_def images_to_pdf_def Let_def open_all_never_raising)

lemma run_capture_exn_never_raising:
  "run_capture_exn h process_image (\<lambda>f. Some (to_rgb f)) (\<lambda>pages. True) output_pdf max_pages
       test_mode bounds_ok ticks =
     map_option (\<lambda>r. \<lparr>outcome = Inr (returned r), folder_after = folder_left r\<rparr>)
       (run_capture h process_image to_rgb output_pdf max_pages test_mode bounds_ok ticks)"
proof -
  obtain e n t where
    r: "capture_loop h (effective_max_pages test_mode max_pages) initial_state ticks = (e, n, t)"
    by (metis prod_cases3)
  obtain ok pdf where
    a: "images_to_pdf to_rgb (process_images process_image (folder t)) = (ok, pdf)"
    by (metis surj_pair)
  show ?thesis
    by (cases e; cases ok)
       (simp_all add: run_capture_exn_def run_capture_def Let_def r a
          images_to_pdf_exn_never_raising)
qed

lemma process_images_keys: "map fst (process_images process_image files) = map fst files"
  by (induction files) (auto simp: process_images_def)

lemma images_to_pdf_exn_returned_failure:
  "images_to_pdf_exn open_rgb save_pdf files = Inr (False, pdf) \<Longrightarrow> pdf = None"
  by (auto simp: images_to_pdf_exn_def Let_def split: if_splits option.splits)

lemma run_capture_exn_after_loop:
  assumes "capture_loop h (effective_max_pages test_mode max_pages) initial_state ticks = (e, n, t)"
    and "e \<noteq> Exhausted" and "\<not> (test_mode \<and> length (folder t) < 3)"
  shows "run_capture_exn h process_image open_rgb save_pdf output_pdf max_pages test_mode True ticks =
     (case images_to_pdf_exn open_rgb save_pdf (process_images process_image (folder t)) of
        Inl exn \<Rightarrow> Some \<lparr>outcome = Inl exn,
                          folder_after = Some (process_images process_image (folder t))\<rparr>
      | Inr (True, pdf) \<Rightarrow> Some \<lparr>outcome = Inr (Some output_pdf), folder_after = None\<rparr>
      | Inr (False, pdf) \<Rightarrow> Some \<lparr>outcome = Inr None,
                          folder_after = Some (process_images process_image (folder t))\<rparr>)"
  using assms by (cases e) (auto simp: run_capture_exn_def Let_def)

text \<open>
  C8. The claim is that on any assembly failure the working frame files are discarded. The
  code with a ceiling of one page, one frame captured and \<open>first_image.save\<close> raising: the
  exception leaves \<open>run_capture\<close>, and the folder with the frame \<open>page_0001.png\<close> is
  still there.
\<close>

theorem assembly_failure_counterexample:
  "run_capture_exn id id Some (\<lambda>pages. False) ''book.pdf'' 1 False True [Capture (Some ''A'')]
     = Some \<lparr>outcome = Inl ImagingError, folder_after = Some [(1, ''A'')]\<rparr>"
  by (simp add: run_capture_exn_def loop_eval effective_max_pages_def process_images_def
      images_to_pdf_exn_def)

text \<open>
  C8, as amended. \<open>images_to_pdf\<close> on a folder without frames returns \<open>False\<close> and
  writes no file. When the assembly fails in \<open>run_capture\<close>, by returning \<open>False\<close> or by
  an exception of the imaging library, \<open>run_capture\<close> gives no PDF path and leaves the
  output folder in place with every frame file that was in it.
\<close>

theorem assembly_failure_leaves_frames:
  "images_to_pdf_exn open_rgb save_pdf [] = Inr (False, None) \<and>
   (capture_loop h (effective_max_pages test_mode max_pages) initial_state ticks = (e, n, t) \<longrightarrow>
    e \<noteq> Exhausted \<longrightarrow> \<not> (test_mode \<and> length (folder t) < 3) \<longrightarrow>
    (let processed = process_images process_image (folder t);
         assembled = images_to_pdf_exn open_rgb save_pdf processed;
         res = run_capture_exn h process_image open_rgb save_pdf output_pdf max_pages test_mode
                 True ticks
     in map fst processed = map fst (folder t) \<and>
        (\<forall>exn. assembled = Inl exn \<longrightarrow>
           res = Some \<lparr>outcome = Inl exn, folder_after = Some processed\<rparr>) \<and>
        (\<forall>pdf. assembled = Inr (False, pdf) \<longrightarrow>
           pdf = None \<and> res = Some \<lparr>outcome = Inr None, folder_after = Some processed\<rparr>)))"
proof -
  have a: "images_to_pdf_exn open_rgb save_pdf [] = Inr (False, None)"
    by (simp add: images_to_pdf_exn_def)
  { assume r: "capture_loop h (effective_max_pages test_mode max_pages) initial_state ticks = (e, n, t)"
      and e: "e \<noteq> Exhausted" and tm: "\<not> (test_mode \<and> length (folder t) < 3)"
    note run = run_capture_exn_after_loop[OF r e tm, of process_image open_rgb save_pdf output_pdf]
    have "let processed = process_images process_image (folder t);
         assembled = images_to_pdf_exn open_rgb save_pdf processed;
         res = run_capture_exn h process_image open_rgb save_pdf output_pdf max_pages test_mode
                 True ticks
     in map fst processed = map fst (folder t) \<and>
        (\<forall>exn. assembled = Inl exn \<longrightarrow>
           res = Some \<lparr>outcome = Inl exn, folder_after = Some processed\<rparr>) \<and>
        (\<forall>pdf. assembled = Inr (False, pdf) \<longrightarrow>
           pdf = None \<and> res = Some \<lparr>outcome = Inr None, folder_after = Some processed\<rparr>)"
      unfolding Let_def run
      by (auto simp: process_images_keys dest: images_to_pdf_exn_returned_failure)
  }
  with a show ?thesis by blast
qed

theorem assembly_failure_leaves_frames_witness:
  "capture_loop id (effective_max_pages False 2) initial_state
       [Capture (Some ''A''), Capture (Some ''B'')]
     = (Ceiling, 2, \<lparr>last_hash = Some ''B'', same_count = 0, page = 2, failed_turns = 0,
          folder = [(1, ''A''), (2, ''B'')]\<rparr>) \<and>
   images_to_pdf_exn (\<lambda>f. None) (\<lambda>pages. True) [(1, ''A''), (2, ''B'')] = Inl ImagingError \<and>
   run_capture_exn id id (\<lambda>f. None) (\<lambda>pages. True) ''book.pdf'' 2 False True
       [Capture (Some ''A''), Capture (Some ''B'')]
     = Some \<lparr>outcome = Inl ImagingError, folder_after = Some [(1, ''A''), (2, ''B'')]\<rparr>"
proof -
  let ?t = "\<lparr>last_hash = Some ''B'', same_count = 0, page = 2, failed_turns = 0,
          folder = [(1, ''A''), (2, ''B'')]\<rparr>"
  have r: "capture_loop id (effective_max_pages False 2) initial_state
       [Capture (Some ''A''), Capture (Some ''B'')] = (Ceiling, 2, ?t)"
    by (simp add: loop_eval effective_max_pages_def)
  have p: "process_images id [(1::int, ''A''), (2, ''B'')] = [(1, ''A''), (2, ''B'')]"
    by (simp add: process_images_def)
  have f: "images_to_pdf_exn (\<lambda>f. None) (\<lambda>pages. True) [(1, ''A''), (2, ''B'')] = Inl ImagingError"
    by (simp add: images_to_pdf_exn_def)
  from assembly_failure_leaves_frames[of "\<lambda>f. None" "\<lambda>pages. True" id False 2
      "[Capture (Some ''A''), Capture (Some ''B'')]" Ceiling 2 ?t id "''book.pdf''"] r p f
  show ?thesis by (simp add: Let_def)
qed

end
